theory Spec2Isabelle
  imports Main "HOL-Library.Word" "HOL-Library.Multiset"
begin

section \<open>The instruction queue of the O3 CPU model (cpu/o3/inst\_queue.hh)\<close>

text \<open>
  The header declares the class \<open>InstructionQueue\<close>: its data members, two
  inline member functions with a body (\<open>getCount\<close>, \<open>updateFreeEntries\<close>), the
  comparison functor \<open>pqCompare\<close> of the ready queues, and the signatures of all other
  member functions, whose bodies live in a file that is not part of the sources.

  Conventions of the embedding.
  \<^item> \<open>unsigned\<close> and \<open>int\<close> are 32 bit wide on every platform the simulator builds on;
    both are \<open>32 word\<close> (\<open>unat\<close> reads an \<open>unsigned\<close>, \<open>sint\<close> an \<open>int\<close>), so \<open>+\<close> wraps
    as the C++ operator does.
  \<^item> \<open>InstSeqNum\<close> (cpu/inst\_seq.hh) is an unsigned 64-bit counter. The queue only
    compares and stores sequence numbers, it never does arithmetic on them, so they
    are \<open>nat\<close>.
  \<^item> A \<open>DynInstPtr\<close> is a reference-counted pointer. Several containers hold pointers
    to one instruction object, so the objects live in an explicit store
    (\<open>insts\<close>, from addresses to objects) and the containers hold addresses.
  \<^item> A C array indexed by thread id or register index is a function from \<open>nat\<close>; the
    bound (\<open>Impl::MaxThreads\<close>, \<open>numPhysRegs\<close>) is written out where a property
    ranges over the whole array.
\<close>

subsection \<open>Data model\<close>

text \<open>
  Modelled from the spec: the enum \<open>OpClass\<close> is declared in
  encumbered/cpu/full/op\_class.hh, which is not among the sources. The spec (section 3)
  names these classes.
\<close>

datatype OpClass =
  IntAlu | IntMult | FloatAdd | FloatMult | MemRead | MemWrite | Branch | Misc

type_synonym InstSeqNum = nat

type_synonym DynInstPtr = nat

text \<open>
  \<open>typedef std::priority_queue<DynInstPtr, std::vector<DynInstPtr>, pqCompare> ReadyInstQueue\<close>:
  a ready queue is its underlying vector (the adaptor's operations are defined below).
\<close>

type_synonym ReadyInstQueue = "DynInstPtr list"

text \<open>
  Modelled from the spec: the class behind \<open>Impl::DynInstPtr\<close> is not among the
  sources. The header reads its member \<open>seqNum\<close> (in \<open>pqCompare\<close>); the other
  attributes are the ones section 3 of the spec lists as observable by the queue.
\<close>

record DynInst =
  seqNum :: InstSeqNum
  threadNumber :: nat
  opClass :: OpClass
  srcRegIdx :: "nat list"
  destRegIdx :: "nat list"
  latency :: nat
  is_memory_ref :: bool
  is_non_speculative :: bool
  is_barrier :: bool
  is_squashed :: bool
  can_issue :: bool
  is_issued :: bool
  is_executed :: bool
  is_completed :: bool

text \<open>\<open>struct ListOrderEntry\<close>: an entry of the age-order list.\<close>

record ListOrderEntry =
  queueType :: OpClass
  oldestInst :: InstSeqNum

text \<open>\<open>enum IQPolicy\<close>: the sharing policies for SMT.\<close>

datatype IQPolicy = Dynamic | Partitioned | Threshold

text \<open>
  The data members of \<open>InstructionQueue\<close>, under their names in the header.
  \<open>insts\<close> is the store the \<open>DynInstPtr\<close>s point into. \<open>dependGraph[r]\<close> is the
  chain of \<open>DependencyEntry\<close> objects behind the head entry of register \<open>r\<close>, as the
  list of their instructions. The iterators (\<open>readyIt\<close>, \<open>squashIt\<close>), the pointers to
  the collaborators (CPU, cache interface, IEW stage, FU pool, time buffers), the memory
  dependence units and the statistics are left out: no function with a body reads or
  writes them, and their classes are not among the sources.
\<close>

record InstructionQueue =
  insts :: "DynInstPtr \<Rightarrow> DynInst"
  instList :: "nat \<Rightarrow> DynInstPtr list"
  readyInsts :: "OpClass \<Rightarrow> ReadyInstQueue"
  nonSpecInsts :: "InstSeqNum \<rightharpoonup> DynInstPtr"
  listOrder :: "ListOrderEntry list"
  queueOnList :: "OpClass \<Rightarrow> bool"
  iqPolicy :: IQPolicy
  numThreads :: "32 word"
  count :: "nat \<Rightarrow> 32 word"
  maxEntries :: "nat \<Rightarrow> 32 word"
  freeEntries :: "32 word"
  numEntries :: "32 word"
  totalWidth :: "32 word"
  numPhysRegs :: "32 word"
  numPhysIntRegs :: "32 word"
  numPhysFloatRegs :: "32 word"
  commitToIEWDelay :: "32 word"
  squashedSeqNum :: "nat \<Rightarrow> InstSeqNum"
  dependGraph :: "nat \<Rightarrow> DynInstPtr list"
  regScoreboard :: "nat \<Rightarrow> bool"

subsection \<open>The member functions with a body in the header\<close>

text \<open>\<open>unsigned getCount(unsigned tid) { return count[tid]; }\<close>\<close>

definition getCount :: "InstructionQueue \<Rightarrow> nat \<Rightarrow> 32 word" where
  "getCount iq tid = count iq tid"

text \<open>
  \<open>void updateFreeEntries(int num) { freeEntries += num; }\<close>
  The left operand is \<open>unsigned\<close>, so \<open>num\<close> is converted to \<open>unsigned\<close> (its value
  modulo \<open>2^32\<close>) and the sum wraps.
\<close>

definition updateFreeEntries :: "32 word \<Rightarrow> InstructionQueue \<Rightarrow> InstructionQueue" where
  "updateFreeEntries num iq = iq\<lparr>freeEntries := freeEntries iq + word_of_int (sint num)\<rparr>"

subsection \<open>The ready queues: \<open>pqCompare\<close> and \<open>std::priority_queue\<close>\<close>

text \<open>
  \<open>bool operator() (const DynInstPtr &lhs, const DynInstPtr &rhs) const
   { return lhs->seqNum > rhs->seqNum; }\<close>
  The functor dereferences both pointers; \<open>mem\<close> is the store they point into.
\<close>

definition pqCompare :: "(DynInstPtr \<Rightarrow> DynInst) \<Rightarrow> DynInstPtr \<Rightarrow> DynInstPtr \<Rightarrow> bool" where
  "pqCompare mem lhs rhs = (seqNum (mem lhs) > seqNum (mem rhs))"

text \<open>
  The ready queues are \<open>std::priority_queue\<close>s over a \<open>std::vector\<close>, compared by
  \<open>pqCompare\<close>. The container adaptor belongs to the C++ standard library, which
  defines its members by their effect on the underlying vector \<open>c\<close>:
  \<^item> \<open>push(x)\<close>: \<open>c.push_back(x); push_heap(c.begin(), c.end(), comp)\<close>;
  \<^item> \<open>pop()\<close>: \<open>pop_heap(c.begin(), c.end(), comp); c.pop_back()\<close>;
  \<^item> \<open>top()\<close>: \<open>c.front()\<close>; \<open>empty()\<close>: \<open>c.empty()\<close>.

  The standard fixes \<open>push_heap\<close> and \<open>pop_heap\<close> by their results: the range is a heap
  with respect to \<open>comp\<close> again (\<open>std::is_heap\<close>), and \<open>pop_heap\<close> has moved the former
  first element to the last position. They are written out here as the binary-heap
  algorithms on the vector: the parent of position \<open>i\<close> is position \<open>(i - 1) / 2\<close>,
  \<open>push_heap\<close> moves the last element up while its parent compares less than it,
  \<open>pop_heap\<close> exchanges the first and the last element and moves the new first element
  down, below the greater of its children, in the range without the last position.
  \<open>top\<close> and \<open>pop\<close> on an empty queue are undefined in C++; they are \<open>None\<close> here.
\<close>

definition parent :: "nat \<Rightarrow> nat" where
  "parent i = (i - 1) div 2"

definition swap_at :: "'a list \<Rightarrow> nat \<Rightarrow> nat \<Rightarrow> 'a list" where
  "swap_at v i j = v[i := v ! j, j := v ! i]"

function sift_up :: "('a \<Rightarrow> 'a \<Rightarrow> bool) \<Rightarrow> 'a list \<Rightarrow> nat \<Rightarrow> 'a list" where
  "sift_up cmp v i =
     (if 0 < i \<and> cmp (v ! parent i) (v ! i)
      then sift_up cmp (swap_at v (parent i) i) (parent i)
      else v)"
  by pat_completeness auto
termination
  by (relation "measure (\<lambda>(cmp, v, i). i)") (auto simp: parent_def)

function sift_down :: "('a \<Rightarrow> 'a \<Rightarrow> bool) \<Rightarrow> 'a list \<Rightarrow> nat \<Rightarrow> nat \<Rightarrow> 'a list" where
  "sift_down cmp v n i =
     (let l = 2 * i + 1;
          r = 2 * i + 2;
          m = (if l < n \<and> cmp (v ! i) (v ! l) then l else i);
          m' = (if r < n \<and> cmp (v ! m) (v ! r) then r else m)
      in if m' \<noteq> i then sift_down cmp (swap_at v i m') n m' else v)"
  by pat_completeness auto
termination
  by (relation "measure (\<lambda>(cmp, v, n, i). n - i)") (auto simp: Let_def split: if_splits)

declare sift_up.simps [simp del]

declare sift_down.simps [simp del]

definition push_heap :: "('a \<Rightarrow> 'a \<Rightarrow> bool) \<Rightarrow> 'a list \<Rightarrow> 'a list" where
  "push_heap cmp v = sift_up cmp v (length v - 1)"

definition pop_heap :: "('a \<Rightarrow> 'a \<Rightarrow> bool) \<Rightarrow> 'a list \<Rightarrow> 'a list" where
  "pop_heap cmp v = sift_down cmp (swap_at v 0 (length v - 1)) (length v - 1) 0"

definition pq_push :: "('a \<Rightarrow> 'a \<Rightarrow> bool) \<Rightarrow> 'a \<Rightarrow> 'a list \<Rightarrow> 'a list" where
  "pq_push cmp x c = push_heap cmp (c @ [x])"

definition pq_pop :: "('a \<Rightarrow> 'a \<Rightarrow> bool) \<Rightarrow> 'a list \<Rightarrow> 'a list option" where
  "pq_pop cmp c = (if c = [] then None else Some (butlast (pop_heap cmp c)))"

definition pq_top :: "'a list \<Rightarrow> 'a option" where
  "pq_top c = (case c of [] \<Rightarrow> None | x # _ \<Rightarrow> Some x)"

definition pq_empty :: "'a list \<Rightarrow> bool" where
  "pq_empty c = (c = [])"

text \<open>
  A history of calls on one queue, run from a given vector. A \<open>pop\<close> on an empty
  queue ends the run with \<open>None\<close>.
\<close>

datatype 'a pq_call = Push 'a | Pop

fun pq_run :: "('a \<Rightarrow> 'a \<Rightarrow> bool) \<Rightarrow> 'a pq_call list \<Rightarrow> 'a list \<Rightarrow> 'a list option" where
  "pq_run cmp [] c = Some c"
| "pq_run cmp (Push x # calls) c = pq_run cmp calls (pq_push cmp x c)"
| "pq_run cmp (Pop # calls) c =
     (case pq_pop cmp c of None \<Rightarrow> None | Some c' \<Rightarrow> pq_run cmp calls c')"

text \<open>
  \<open>std::is_heap\<close> on the first \<open>n\<close> positions: no element compares greater than
  its parent.
\<close>

definition is_heap_until :: "('a \<Rightarrow> 'a \<Rightarrow> bool) \<Rightarrow> 'a list \<Rightarrow> nat \<Rightarrow> bool" where
  "is_heap_until cmp v n = (\<forall>i \<in> {1..<n}. \<not> cmp (v ! parent i) (v ! i))"

text \<open>
  The same property read through a key, for a comparison that orders by a key:
  \<open>pqCompare\<close> orders by \<open>seqNum\<close>, the greater number comparing less.
\<close>

definition key_heap :: "('a \<Rightarrow> nat) \<Rightarrow> 'a list \<Rightarrow> nat \<Rightarrow> bool" where
  "key_heap key v n = (\<forall>j \<in> {1..<n}. key (v ! parent j) \<le> key (v ! j))"

subsection \<open>Commit\<close>

text \<open>
  Modelled from the spec: the header only declares
  \<open>void commit(const InstSeqNum &inst, unsigned tid = 0)\<close> ("Commits all instructions up
  to and including the given sequence number, for a specific thread"); its body is
  not among the sources. Section 4.7 of the spec: \<open>commit(sn, tid)\<close> removes from the
  head of \<open>instList[tid]\<close> all instructions with SN \<open>\<le> sn\<close>, releasing their IQ slot:
  for each removed instruction, increment \<open>freeEntries\<close>, decrement \<open>count[tid]\<close>; no
  dependency-graph cleanup. The loop pops the front of the list while the front
  instruction's sequence number is at most \<open>sn\<close>.
\<close>

function commit :: "InstSeqNum \<Rightarrow> nat \<Rightarrow> InstructionQueue \<Rightarrow> InstructionQueue" where
  "commit sn tid iq =
     (case instList iq tid of
        [] \<Rightarrow> iq
      | h # rest \<Rightarrow>
          if seqNum (insts iq h) \<le> sn
          then commit sn tid
                 (iq\<lparr>instList := (instList iq)(tid := rest),
                     freeEntries := freeEntries iq + 1,
                     count := (count iq)(tid := count iq tid - 1)\<rparr>)
          else iq)"
  by pat_completeness auto
termination
  by (relation "measure (\<lambda>(sn, tid, iq). length (instList iq tid))") auto

declare commit.simps [simp del]

subsection \<open>Concrete states for the examples\<close>

definition example_inst :: "InstSeqNum \<Rightarrow> DynInst" where
  "example_inst sn =
     \<lparr>seqNum = sn, threadNumber = 0, opClass = IntAlu, srcRegIdx = [], destRegIdx = [],
      latency = 1, is_memory_ref = False, is_non_speculative = False,
      is_barrier = False, is_squashed = False, can_issue = True, is_issued = False,
      is_executed = False, is_completed = False\<rparr>"

text \<open>Four instructions at addresses 0 to 3, with sequence numbers 7, 3, 9 and 1.\<close>

definition example_mem :: "DynInstPtr \<Rightarrow> DynInst" where
  "example_mem p =
     example_inst (if p = 0 then 7 else if p = 1 then 3 else if p = 2 then 9 else 1)"

text \<open>
  A queue of four entries, all taken by thread 0: the four instructions are in flight
  (in dispatch order, oldest first) and all of them are ready to issue, so the ready
  queue of their op class holds them and the age-order list has one entry for it.
  No entry is free.
\<close>

definition example_iq :: InstructionQueue where
  "example_iq =
     \<lparr>insts = example_mem,
      instList = (\<lambda>t. if t = 0 then [3, 1, 0, 2] else []),
      readyInsts = (\<lambda>c. if c = IntAlu then [3, 1, 0, 2] else []),
      nonSpecInsts = Map.empty,
      listOrder = [\<lparr>queueType = IntAlu, oldestInst = 1\<rparr>],
      queueOnList = (\<lambda>c. c = IntAlu),
      iqPolicy = Dynamic, numThreads = 1,
      count = (\<lambda>t. if t = 0 then 4 else 0), maxEntries = (\<lambda>_. 4),
      freeEntries = 0, numEntries = 4, totalWidth = 1,
      numPhysRegs = 4, numPhysIntRegs = 2, numPhysFloatRegs = 2, commitToIEWDelay = 1,
      squashedSeqNum = (\<lambda>_. 0), dependGraph = (\<lambda>_. []), regScoreboard = (\<lambda>_. True)\<rparr>"

section \<open>Properties\<close>

subsection \<open>The binary heap under the ready queues\<close>

lemma length_swap_at [simp]: "length (swap_at v i j) = length v"
  by (simp add: swap_at_def)

lemma mset_swap_at: "i < length v \<Longrightarrow> j < length v \<Longrightarrow> mset (swap_at v i j) = mset v"
  unfolding swap_at_def by (metis mset_swap)

lemma nth_swap_at:
  "i < length v \<Longrightarrow> j < length v \<Longrightarrow>
   swap_at v i j ! k = (if k = j then v ! i else if k = i then v ! j else v ! k)"
  by (auto simp: swap_at_def nth_list_update)

lemma length_sift_up [simp]: "length (sift_up cmp v i) = length v"
  by (induction cmp v i rule: sift_up.induct) (subst sift_up.simps, simp)

lemma mset_sift_up: "i < length v \<Longrightarrow> mset (sift_up cmp v i) = mset v"
proof (induction cmp v i rule: sift_up.induct)
  case (1 cmp v i)
  show ?case
  proof (cases "0 < i \<and> cmp (v ! parent i) (v ! i)")
    case True
    have p: "parent i < length v" using "1.prems" by (simp add: parent_def)
    have "mset (sift_up cmp (swap_at v (parent i) i) (parent i)) = mset (swap_at v (parent i) i)"
      using "1.IH"[OF True] p by simp
    then show ?thesis using True p "1.prems"
      by (subst sift_up.simps) (simp add: mset_swap_at)
  next
    case False
    then show ?thesis by (subst sift_up.simps) auto
  qed
qed

lemma length_sift_down [simp]: "length (sift_down cmp v n i) = length v"
  by (induction cmp v n i rule: sift_down.induct) (subst sift_down.simps, simp add: Let_def)

lemma mset_sift_down: "n \<le> length v \<Longrightarrow> i < n \<Longrightarrow> mset (sift_down cmp v n i) = mset v"
proof (induction cmp v n i rule: sift_down.induct)
  case (1 cmp v n i)
  define l where "l = 2 * i + 1"
  define r where "r = 2 * i + 2"
  define m where "m = (if l < n \<and> cmp (v ! i) (v ! l) then l else i)"
  define m' where "m' = (if r < n \<and> cmp (v ! m) (v ! r) then r else m)"
  have unf: "sift_down cmp v n i = (if m' \<noteq> i then sift_down cmp (swap_at v i m') n m' else v)"
    by (subst sift_down.simps) (simp add: Let_def l_def r_def m_def m'_def)
  show ?case
  proof (cases "m' = i")
    case True
    then show ?thesis using unf by simp
  next
    case False
    have m'n: "m' < n" using "1.prems" by (auto simp: m'_def m_def)
    have "mset (sift_down cmp (swap_at v i m') n m') = mset (swap_at v i m')"
      using "1.IH"[OF l_def r_def m_def m'_def False] "1.prems" m'n by simp
    then show ?thesis using unf False m'n "1.prems" by (simp add: mset_swap_at)
  qed
qed


lemma parent_less: "0 < j \<Longrightarrow> parent j < j"
  by (simp add: parent_def)

lemma parent_children: "0 < j \<Longrightarrow> parent j = i \<longleftrightarrow> j = 2 * i + 1 \<or> j = 2 * i + 2"
  by (auto simp: parent_def)

lemma sift_up_heap:
  "(\<forall>a b. cmp a b \<longleftrightarrow> key b < key a) \<Longrightarrow> i < n \<Longrightarrow> n \<le> length v \<Longrightarrow>
   (\<forall>j \<in> {1..<n}. j \<noteq> i \<longrightarrow> key (v ! parent j) \<le> key (v ! j)) \<Longrightarrow>
   (0 < i \<longrightarrow> (\<forall>j \<in> {1..<n}. parent j = i \<longrightarrow> key (v ! parent i) \<le> key (v ! j))) \<Longrightarrow>
   key_heap key (sift_up cmp v i) n"
proof (induction cmp v i rule: sift_up.induct)
  case (1 cmp v i)
  note ck = "1.prems"(1) and A = "1.prems"(4) and B = "1.prems"(5)
  show ?case
  proof (cases "0 < i \<and> cmp (v ! parent i) (v ! i)")
    case False
    have "key (v ! parent j) \<le> key (v ! j)" if "j \<in> {1..<n}" for j
    proof (cases "j = i")
      case True
      then show ?thesis using False ck that by auto
    next
      case False
      then show ?thesis using A that by blast
    qed
    then show ?thesis using False by (subst sift_up.simps) (auto simp: key_heap_def)
  next
    case True
    define p where "p = parent i"
    define w where "w = swap_at v p i"
    have ipos: "0 < i" and lt: "key (v ! i) < key (v ! p)" using True ck by (auto simp: p_def)
    have pi: "p < i" using ipos by (simp add: p_def parent_less)
    have il: "i < length v" "p < length v" using "1.prems"(2,3) pi by auto
    have nthw: "w ! k = (if k = i then v ! p else if k = p then v ! i else v ! k)" for k
      unfolding w_def using il by (simp add: nth_swap_at)
    have A': "\<forall>j \<in> {1..<n}. j \<noteq> p \<longrightarrow> key (w ! parent j) \<le> key (w ! j)"
    proof (intro ballI impI)
      fix j assume j: "j \<in> {1..<n}" and jp: "j \<noteq> p"
      have pj: "parent j < j" using j by (simp add: parent_less)
      show "key (w ! parent j) \<le> key (w ! j)"
      proof (cases "j = i")
        case True
        then show ?thesis using lt pi by (simp add: nthw p_def[symmetric])
      next
        case ji: False
        show ?thesis
        proof (cases "parent j = i")
          case True
          then show ?thesis using B j ipos ji jp pi by (auto simp: nthw p_def)
        next
          case npi: False
          show ?thesis
          proof (cases "parent j = p")
            case True
            have "key (v ! p) \<le> key (v ! j)" using A j ji True by auto
            then show ?thesis using True ji jp lt pi by (simp add: nthw)
          next
            case False
            then show ?thesis using A j ji jp npi by (simp add: nthw)
          qed
        qed
      qed
    qed
    have B': "0 < p \<longrightarrow> (\<forall>j \<in> {1..<n}. parent j = p \<longrightarrow> key (w ! parent p) \<le> key (w ! j))"
    proof (intro impI ballI)
      fix j assume ppos: "0 < p" and j: "j \<in> {1..<n}" and pj: "parent j = p"
      have ppp: "parent p < p" using ppos by (simp add: parent_less)
      have pin: "p \<in> {1..<n}" using ppos pi "1.prems"(2) by auto
      have g: "key (v ! parent p) \<le> key (v ! p)" using A pin pi by auto
      have jgt: "p < j" using pj j parent_less[of j] by auto
      show "key (w ! parent p) \<le> key (w ! j)"
      proof (cases "j = i")
        case True
        then show ?thesis using g ppp pi by (simp add: nthw)
      next
        case False
        have "key (v ! p) \<le> key (v ! j)" using A j False pj by auto
        then show ?thesis using g ppp pi False jgt by (simp add: nthw)
      qed
    qed
    have "key_heap key (sift_up cmp w p) n"
      unfolding w_def p_def
      apply (rule "1.IH"[OF True ck])
      using pi "1.prems"(2,3) A' B' by (auto simp: w_def p_def)
    moreover have "sift_up cmp v i = sift_up cmp w p"
      using True by (subst sift_up.simps) (simp add: w_def p_def)
    ultimately show ?thesis by simp
  qed
qed


lemma sift_down_heap:
  "(\<forall>a b. cmp a b \<longleftrightarrow> key b < key a) \<Longrightarrow> n \<le> length v \<Longrightarrow>
   (\<forall>j \<in> {1..<n}. parent j \<noteq> i \<longrightarrow> key (v ! parent j) \<le> key (v ! j)) \<Longrightarrow>
   (0 < i \<longrightarrow> (\<forall>j \<in> {1..<n}. parent j = i \<longrightarrow> key (v ! parent i) \<le> key (v ! j))) \<Longrightarrow>
   key_heap key (sift_down cmp v n i) n"
proof (induction cmp v n i rule: sift_down.induct)
  case (1 cmp v n i)
  note ck = "1.prems"(1) and A = "1.prems"(3) and B = "1.prems"(4)
  define l where "l = 2 * i + 1"
  define r where "r = 2 * i + 2"
  define m where "m = (if l < n \<and> cmp (v ! i) (v ! l) then l else i)"
  define m' where "m' = (if r < n \<and> cmp (v ! m) (v ! r) then r else m)"
  have unf: "sift_down cmp v n i = (if m' \<noteq> i then sift_down cmp (swap_at v i m') n m' else v)"
    by (subst sift_down.simps) (simp add: Let_def l_def r_def m_def m'_def)
  have kids: "parent j = i \<longleftrightarrow> j = l \<or> j = r" if "0 < j" for j
    using that by (simp add: parent_children l_def r_def)
  have minl: "l < n \<Longrightarrow> key (v ! m') \<le> key (v ! l)"
    and minr: "r < n \<Longrightarrow> key (v ! m') \<le> key (v ! r)"
    and mini: "key (v ! m') \<le> key (v ! i)"
    using ck by (auto simp: m'_def m_def)
  show ?case
  proof (cases "m' = i")
    case True
    have "key (v ! parent j) \<le> key (v ! j)" if j: "j \<in> {1..<n}" for j
    proof (cases "parent j = i")
      case False
      then show ?thesis using A j by blast
    next
      case pj: True
      then have "j = l \<or> j = r" using kids[of j] j by auto
      then show ?thesis using minl minr True j pj by auto
    qed
    then show ?thesis using unf True by (simp add: key_heap_def)
  next
    case False
    define w where "w = swap_at v i m'"
    have m'lr: "m' = l \<or> m' = r" and m'n: "m' < n" using False by (auto simp: m'_def m_def split: if_splits)
    have im': "i < m'" using m'lr by (auto simp: l_def r_def)
    have pm': "parent m' = i" using m'lr kids[of m'] im' by auto
    have lens: "i < length v" "m' < length v" using m'n im' "1.prems"(2) by auto
    have strict: "key (v ! m') < key (v ! i)"
      using False ck by (auto simp: m'_def m_def split: if_splits)
    have nthw: "w ! k = (if k = m' then v ! i else if k = i then v ! m' else v ! k)" for k
      unfolding w_def using lens by (simp add: nth_swap_at)
    have A': "\<forall>j \<in> {1..<n}. parent j \<noteq> m' \<longrightarrow> key (w ! parent j) \<le> key (w ! j)"
    proof (intro ballI impI)
      fix j assume j: "j \<in> {1..<n}" and pj: "parent j \<noteq> m'"
      have pjl: "parent j < j" using j by (simp add: parent_less)
      show "key (w ! parent j) \<le> key (w ! j)"
      proof (cases "parent j = i")
        case True
        then have jlr: "j = l \<or> j = r" using kids[of j] j by auto
        show ?thesis
        proof (cases "j = m'")
          case True
          then show ?thesis using strict pm' im' by (simp add: nthw)
        next
          case False
          have "key (v ! m') \<le> key (v ! j)" using jlr minl minr j by auto
          then show ?thesis using True False pjl by (simp add: nthw)
        qed
      next
        case npi: False
        have jm': "j \<noteq> m'" using npi pm' by auto
        show ?thesis
        proof (cases "j = i")
          case True
          then have ipos: "0 < i" using j by auto
          have "key (v ! parent i) \<le> key (v ! m')"
            using B ipos m'n im' pm' by auto
          then show ?thesis using True pjl im' pj by (simp add: nthw)
        next
          case False
          then show ?thesis using A j npi pj jm' by (simp add: nthw)
        qed
      qed
    qed
    have B': "0 < m' \<longrightarrow> (\<forall>j \<in> {1..<n}. parent j = m' \<longrightarrow> key (w ! parent m') \<le> key (w ! j))"
    proof (intro impI ballI)
      fix j assume j: "j \<in> {1..<n}" and pj: "parent j = m'"
      have jgt: "m' < j" using pj j parent_less[of j] by auto
      have "key (v ! m') \<le> key (v ! j)" using A j pj im' by auto
      then show "key (w ! parent m') \<le> key (w ! j)" using pm' jgt im' by (simp add: nthw)
    qed
    have "key_heap key (sift_down cmp w n m') n"
      unfolding w_def
      apply (rule "1.IH"[OF l_def r_def m_def m'_def False ck])
      using "1.prems"(2) A' B' by (auto simp: w_def)
    then show ?thesis using unf False by (simp add: w_def)
  qed
qed

lemma key_heap_front:
  "key_heap key v (length v) \<Longrightarrow> i < length v \<Longrightarrow> key (v ! 0) \<le> key (v ! i)"
proof (induction i rule: less_induct)
  case (less i)
  show ?case
  proof (cases "i = 0")
    case True
    then show ?thesis by simp
  next
    case False
    then have "parent i < i" by (simp add: parent_less)
    moreover have "key (v ! parent i) \<le> key (v ! i)"
      using less.prems False by (auto simp: key_heap_def)
    ultimately show ?thesis using less.IH[of "parent i"] less.prems by auto
  qed
qed

lemma is_heap_until_key:
  "(\<forall>a b. cmp a b \<longleftrightarrow> key b < key a) \<Longrightarrow> is_heap_until cmp v n \<longleftrightarrow> key_heap key v n"
  by (auto simp: is_heap_until_def key_heap_def not_less)

lemma pqCompare_key: "\<forall>a b. pqCompare mem a b \<longleftrightarrow> seqNum (mem b) < seqNum (mem a)"
  by (simp add: pqCompare_def)

lemma push_heap_key_heap:
  assumes ck: "\<forall>a b. cmp a b \<longleftrightarrow> key b < key a" and h: "key_heap key c (length c)"
  shows "key_heap key (pq_push cmp x c) (length c + 1)"
proof -
  have "key_heap key (sift_up cmp (c @ [x]) (length c)) (length c + 1)"
  proof (rule sift_up_heap[OF ck])
    show "\<forall>j\<in>{1..<length c + 1}. j \<noteq> length c \<longrightarrow> key ((c @ [x]) ! parent j) \<le> key ((c @ [x]) ! j)"
    proof (intro ballI impI)
      fix j assume "j \<in> {1..<length c + 1}" "j \<noteq> length c"
      then have j: "j \<in> {1..<length c}" by auto
      then have "parent j < length c" using parent_less[of j] by auto
      then show "key ((c @ [x]) ! parent j) \<le> key ((c @ [x]) ! j)"
        using h j by (auto simp: key_heap_def nth_append)
    qed
    show "0 < length c \<longrightarrow> (\<forall>j\<in>{1..<length c + 1}. parent j = length c \<longrightarrow>
        key ((c @ [x]) ! parent (length c)) \<le> key ((c @ [x]) ! j))"
    proof (intro ballI impI)
      fix j assume "j \<in> {1..<length c + 1}" "parent j = length c"
      then have False using parent_less[of j] by auto
      then show "key ((c @ [x]) ! parent (length c)) \<le> key ((c @ [x]) ! j)" ..
    qed
  qed simp_all
  then show ?thesis by (simp add: pq_push_def push_heap_def)
qed

lemma length_pq_push [simp]: "length (pq_push cmp x c) = length c + 1"
  by (simp add: pq_push_def push_heap_def)

lemma mset_pq_push: "mset (pq_push cmp x c) = add_mset x (mset c)"
  by (simp add: pq_push_def push_heap_def mset_sift_up)

lemma pop_heap_key_heap:
  assumes ck: "\<forall>a b. cmp a b \<longleftrightarrow> key b < key a" and h: "key_heap key c (length c)"
  shows "key_heap key (pop_heap cmp c) (length c - 1)"
proof -
  define n where "n = length c - 1"
  define w where "w = swap_at c 0 n"
  have "key_heap key (sift_down cmp w n 0) n"
  proof (rule sift_down_heap[OF ck])
    show "n \<le> length w" by (simp add: w_def n_def)
    show "\<forall>j\<in>{1..<n}. parent j \<noteq> 0 \<longrightarrow> key (w ! parent j) \<le> key (w ! j)"
    proof (intro ballI impI)
      fix j assume j: "j \<in> {1..<n}" and pj: "parent j \<noteq> 0"
      have "parent j < j" using j by (simp add: parent_less)
      moreover have "0 < length c" "n < length c" using j by (auto simp: n_def)
      ultimately have "w ! parent j = c ! parent j" "w ! j = c ! j"
        using j pj unfolding w_def by (simp_all add: nth_swap_at)
      then show "key (w ! parent j) \<le> key (w ! j)" using h j by (auto simp: key_heap_def n_def)
    qed
    show "0 < (0::nat) \<longrightarrow> (\<forall>j\<in>{1..<n}. parent j = 0 \<longrightarrow> key (w ! parent 0) \<le> key (w ! j))"
      by simp
  qed
  then show ?thesis by (simp add: pop_heap_def w_def n_def)
qed

lemma key_heap_butlast:
  "key_heap key v (length v - 1) \<Longrightarrow> key_heap key (butlast v) (length (butlast v))"
proof -
  assume h: "key_heap key v (length v - 1)"
  have "key (butlast v ! parent j) \<le> key (butlast v ! j)" if j: "j \<in> {1..<length v - 1}" for j
  proof -
    have "parent j < j" using j by (simp add: parent_less)
    then show ?thesis using j h by (auto simp: nth_butlast key_heap_def)
  qed
  then show ?thesis by (simp add: key_heap_def)
qed

lemma pq_pop_key_heap:
  assumes ck: "\<forall>a b. cmp a b \<longleftrightarrow> key b < key a" and h: "key_heap key c (length c)"
    and p: "pq_pop cmp c = Some c'"
  shows "key_heap key c' (length c')"
proof -
  have c': "c' = butlast (pop_heap cmp c)" using p by (auto simp: pq_pop_def split: if_splits)
  have len: "length (pop_heap cmp c) = length c" by (simp add: pop_heap_def)
  show ?thesis unfolding c'
    by (rule key_heap_butlast) (use pop_heap_key_heap[OF ck h] in \<open>simp add: len\<close>)
qed


lemma nth_sift_down_above: "n \<le> k \<Longrightarrow> sift_down cmp v n i ! k = v ! k"
proof (induction cmp v n i rule: sift_down.induct)
  case (1 cmp v n i)
  define l where "l = 2 * i + 1"
  define r where "r = 2 * i + 2"
  define m where "m = (if l < n \<and> cmp (v ! i) (v ! l) then l else i)"
  define m' where "m' = (if r < n \<and> cmp (v ! m) (v ! r) then r else m)"
  have unf: "sift_down cmp v n i = (if m' \<noteq> i then sift_down cmp (swap_at v i m') n m' else v)"
    by (subst sift_down.simps) (simp add: Let_def l_def r_def m_def m'_def)
  show ?case
  proof (cases "m' = i")
    case True
    then show ?thesis using unf by simp
  next
    case False
    have m'n: "m' < n" "i < n" using False by (auto simp: m'_def m_def l_def r_def split: if_splits)
    have "sift_down cmp (swap_at v i m') n m' ! k = swap_at v i m' ! k"
      using "1.IH"[OF l_def r_def m_def m'_def False "1.prems"] .
    also have "\<dots> = v ! k" using m'n "1.prems" by (simp add: swap_at_def)
    finally show ?thesis using unf False by simp
  qed
qed

lemma length_pop_heap [simp]: "length (pop_heap cmp c) = length c"
  by (simp add: pop_heap_def)

lemma last_pop_heap: "c \<noteq> [] \<Longrightarrow> last (pop_heap cmp c) = hd c"
proof -
  assume ne: "c \<noteq> []"
  define n where "n = length c - 1"
  have n: "n < length c" using ne by (simp add: n_def)
  have "pop_heap cmp c \<noteq> []" using ne by (metis length_pop_heap length_0_conv)
  then have "last (pop_heap cmp c) = pop_heap cmp c ! n"
    by (simp add: last_conv_nth n_def)
  also have "\<dots> = swap_at c 0 n ! n"
    unfolding pop_heap_def n_def[symmetric] by (rule nth_sift_down_above) simp
  also have "\<dots> = c ! 0" using n ne by (simp add: nth_swap_at)
  finally show ?thesis using ne by (simp add: hd_conv_nth)
qed

lemma mset_pop_heap: "mset (pop_heap cmp c) = mset c"
proof (cases "length c \<le> 1")
  case True
  then have "pop_heap cmp c = c"
    by (cases c) (auto simp: pop_heap_def swap_at_def sift_down.simps[of _ _ 0])
  then show ?thesis by simp
next
  case False
  then have "0 < length c" "length c - 1 < length c" "0 < length c - 1" by auto
  then show ?thesis
    by (simp add: pop_heap_def mset_sift_down mset_swap_at)
qed

lemma mset_pq_pop:
  assumes "pq_pop cmp c = Some c'" and "pq_top c = Some t"
  shows "mset c = add_mset t (mset c')"
proof -
  have ne: "c \<noteq> []" and c': "c' = butlast (pop_heap cmp c)"
    using assms(1) by (auto simp: pq_pop_def split: if_splits)
  have t: "t = hd c" using assms(2) by (auto simp: pq_top_def split: list.splits)
  have pne: "pop_heap cmp c \<noteq> []" using ne by (metis length_pop_heap length_0_conv)
  have "mset (pop_heap cmp c) = mset (butlast (pop_heap cmp c) @ [last (pop_heap cmp c)])"
    using pne by simp
  then show ?thesis using last_pop_heap[OF ne, of cmp] by (simp add: c' t mset_pop_heap)
qed

lemma pq_top_least:
  assumes h: "key_heap key c (length c)" and t: "pq_top c = Some t"
  shows "t \<in> set c \<and> (\<forall>x \<in> set c. key t \<le> key x)"
proof -
  have ne: "c \<noteq> []" and t0: "t = c ! 0"
    using t by (auto simp: pq_top_def split: list.splits)
  have "key t \<le> key x" if xc: "x \<in> set c" for x
  proof -
    obtain i where "i < length c" "c ! i = x" using xc by (auto simp: in_set_conv_nth)
    then show ?thesis using key_heap_front[OF h, of i] t0 by simp
  qed
  moreover have "t \<in> set c" using ne t0 by (cases c) auto
  ultimately show ?thesis by blast
qed

lemma pq_run_key_heap:
  "(\<forall>a b. cmp a b \<longleftrightarrow> key b < key a) \<Longrightarrow> key_heap key c (length c) \<Longrightarrow>
   pq_run cmp calls c = Some q \<Longrightarrow> key_heap key q (length q)"
proof (induction cmp calls c rule: pq_run.induct)
  case (1 cmp c)
  then show ?case by simp
next
  case (2 cmp x calls c)
  have hp: "key_heap key (pq_push cmp x c) (length (pq_push cmp x c))"
    using push_heap_key_heap[OF "2.prems"(1,2), of x] by simp
  have "pq_run cmp calls (pq_push cmp x c) = Some q" using "2.prems"(3) by simp
  then show ?case by (rule "2.IH"[OF "2.prems"(1) hp])
next
  case (3 cmp calls c)
  obtain c' where c': "pq_pop cmp c = Some c'"
    using "3.prems"(3) by (auto split: option.splits)
  have hp: "key_heap key c' (length c')" using pq_pop_key_heap[OF "3.prems"(1,2) c'] .
  have "pq_run cmp calls c' = Some q" using "3.prems"(3) c' by simp
  then show ?case by (rule "3.IH"[OF c' "3.prems"(1) hp])
qed

subsection \<open>C7: the top of a ready queue is its oldest instruction\<close>

lemma is_heap_until_pq_run:
  "pq_run (pqCompare mem) calls [] = Some q \<Longrightarrow> is_heap_until (pqCompare mem) q (length q)"
proof -
  assume run: "pq_run (pqCompare mem) calls [] = Some q"
  have "key_heap (\<lambda>p. seqNum (mem p)) [] (length [])" by (simp add: key_heap_def)
  then have "key_heap (\<lambda>p. seqNum (mem p)) q (length q)"
    using pq_run_key_heap[OF pqCompare_key _ run] by blast
  then show ?thesis using is_heap_until_key[OF pqCompare_key] by blast
qed

text \<open>
  Whatever algorithm keeps the vector a heap with respect to \<open>pqCompare\<close>, the front
  of the vector is an oldest instruction.
\<close>

lemma is_heap_top_oldest:
  assumes heap: "is_heap_until (pqCompare mem) q (length q)" and top: "pq_top q = Some t"
  shows "t \<in> set q \<and> (\<forall>x \<in> set q. seqNum (mem t) \<le> seqNum (mem x))"
proof -
  have "key_heap (\<lambda>p. seqNum (mem p)) q (length q)"
    using heap is_heap_until_key[OF pqCompare_key] by blast
  then show ?thesis using pq_top_least[OF _ top] by blast
qed

text \<open>
  \<open>pqCompare\<close> reads nothing but the sequence numbers, so two stores that agree on
  them (the flags of an instruction change while it waits, its sequence number does
  not) give the same comparison.
\<close>

lemma pqCompare_cong:
  "(\<forall>p. seqNum (mem p) = seqNum (mem' p)) \<Longrightarrow> pqCompare mem = pqCompare mem'"
  by (simp add: pqCompare_def fun_eq_iff)

text \<open>
  Claim C7. For every op class \<open>c\<close>, the ready queue \<open>readyInsts[c]\<close> is a
  \<open>ReadyInstQueue\<close>, a \<open>std::priority_queue\<close> ordered by \<open>pqCompare\<close>. Whatever
  history of \<open>push\<close> and \<open>pop\<close> calls built it from the empty queue (any insertion
  order, instructions of any threads), if it is not empty then its \<open>top()\<close> is one of
  its instructions and no instruction in it has a smaller sequence number.
  (\<open>mset_pq_push\<close> and \<open>mset_pq_pop\<close> above say what the queue holds: \<open>push\<close> adds
  its argument and \<open>pop\<close> removes the top, nothing else.)
\<close>

theorem readyInsts_top_is_oldest:
  assumes "pq_run (pqCompare (insts iq)) calls [] = Some (readyInsts iq c)"
    and "pq_top (readyInsts iq c) = Some t"
  shows "t \<in> set (readyInsts iq c)
       \<and> (\<forall>x \<in> set (readyInsts iq c). seqNum (insts iq t) \<le> seqNum (insts iq x))"
proof -
  have "is_heap_until (pqCompare (insts iq)) (readyInsts iq c) (length (readyInsts iq c))"
    using assms(1) by (rule is_heap_until_pq_run)
  then show ?thesis
    using assms(2) by (rule is_heap_top_oldest)
qed

text \<open>
  The theorem on the example queue, whose ready queue of \<open>IntAlu\<close> is the result of
  this history: instructions 0, 1, 2 (sequence numbers 7, 3, 9) are pushed, the oldest
  is popped, then instruction 3 (sequence number 1) and instruction 1 again are pushed.
\<close>

theorem readyInsts_top_is_oldest_witness:
  "pq_run (pqCompare (insts example_iq)) [Push 0, Push 1, Push 2, Pop, Push 3, Push 1] []
     = Some (readyInsts example_iq IntAlu)
   \<and> pq_top (readyInsts example_iq IntAlu) = Some 3
   \<and> list_all (\<lambda>x. seqNum (insts example_iq 3) \<le> seqNum (insts example_iq x))
        (readyInsts example_iq IntAlu)"
proof -
  have r: "pq_run (pqCompare (insts example_iq)) [Push 0, Push 1, Push 2, Pop, Push 3, Push 1] []
      = Some (readyInsts example_iq IntAlu)"
    by code_simp
  have t: "pq_top (readyInsts example_iq IntAlu) = Some 3"
    by (simp add: pq_top_def example_iq_def)
  show ?thesis
    using readyInsts_top_is_oldest[OF r t] r t by (simp add: list_all_iff)
qed

subsection \<open>C10: \<open>updateFreeEntries\<close>\<close>

lemma uint_plus_of_int:
  "uint ((a :: 32 word) + word_of_int k) = (uint a + k) mod 2 ^ 32"
  by (simp add: uint_word_ariths uint_word_of_int take_bit_eq_mod mod_simps)

lemma uint_updateFreeEntries:
  "uint (freeEntries (updateFreeEntries num iq)) = (uint (freeEntries iq) + sint num) mod 2 ^ 32"
  using uint_plus_of_int[of "freeEntries iq" "sint num"] by (simp add: updateFreeEntries_def)

text \<open>
  Claim C10, as stated, says that \<open>updateFreeEntries(n)\<close> increases \<open>freeEntries\<close> by
  exactly \<open>n\<close> for every \<open>int n\<close>. \<open>freeEntries\<close> is an \<open>unsigned\<close>: on the
  example queue (\<open>freeEntries = 0\<close>) the call \<open>updateFreeEntries(-1)\<close> leaves
  \<open>4294967295\<close> in it, which is not \<open>0 + (-1)\<close>.
\<close>

theorem updateFreeEntries_exact_counterexample:
  "freeEntries example_iq = 0
   \<and> sint (- 1 :: 32 word) = - 1
   \<and> uint (freeEntries (updateFreeEntries (- 1) example_iq)) = 4294967295
   \<and> uint (freeEntries (updateFreeEntries (- 1) example_iq))
       \<noteq> uint (freeEntries example_iq) + sint (- 1 :: 32 word)"
  using uint_updateFreeEntries[of "- 1" example_iq]
  by (simp add: example_iq_def)

text \<open>
  Claim C10, amended. For every \<open>int n\<close>, \<open>updateFreeEntries(n)\<close> sets \<open>freeEntries\<close>
  to \<open>(freeEntries + n) mod 2^32\<close>, which is \<open>freeEntries + n\<close> exactly when that sum
  lies in \<open>[0, 2^32)\<close>, and changes nothing else: the new state is the old one with
  that one field replaced, so \<open>count[t]\<close> for every thread, \<open>numEntries\<close>, \<open>instList\<close>,
  the dependency graph, the scoreboard, the ready queues, the age-order list and
  \<open>nonSpecInsts\<close> are unchanged. Hence a call with \<open>n \<noteq> 0\<close> changes \<open>freeEntries\<close>
  (a nonzero \<open>int\<close> is nonzero modulo \<open>2^32\<close>) without any change to any \<open>count[t]\<close>.
\<close>

theorem updateFreeEntries_frame:
  "uint (freeEntries (updateFreeEntries num iq)) = (uint (freeEntries iq) + sint num) mod 2 ^ 32
   \<and> (0 \<le> uint (freeEntries iq) + sint num \<and> uint (freeEntries iq) + sint num < 2 ^ 32 \<longrightarrow>
        uint (freeEntries (updateFreeEntries num iq)) = uint (freeEntries iq) + sint num)
   \<and> updateFreeEntries num iq = iq\<lparr>freeEntries := freeEntries (updateFreeEntries num iq)\<rparr>
   \<and> count (updateFreeEntries num iq) = count iq
   \<and> numEntries (updateFreeEntries num iq) = numEntries iq
   \<and> instList (updateFreeEntries num iq) = instList iq
   \<and> dependGraph (updateFreeEntries num iq) = dependGraph iq
   \<and> regScoreboard (updateFreeEntries num iq) = regScoreboard iq
   \<and> readyInsts (updateFreeEntries num iq) = readyInsts iq
   \<and> listOrder (updateFreeEntries num iq) = listOrder iq
   \<and> nonSpecInsts (updateFreeEntries num iq) = nonSpecInsts iq
   \<and> (sint num \<noteq> 0 \<longrightarrow>
        freeEntries (updateFreeEntries num iq) \<noteq> freeEntries iq
        \<and> (\<forall>t. getCount (updateFreeEntries num iq) t = getCount iq t))"
proof -
  have mod: "uint (freeEntries (updateFreeEntries num iq))
      = (uint (freeEntries iq) + sint num) mod 2 ^ 32"
    by (rule uint_updateFreeEntries)
  have exact: "uint (freeEntries (updateFreeEntries num iq)) = uint (freeEntries iq) + sint num"
    if "0 \<le> uint (freeEntries iq) + sint num" "uint (freeEntries iq) + sint num < 2 ^ 32"
    using that mod by simp
  have changed: "freeEntries (updateFreeEntries num iq) \<noteq> freeEntries iq" if "sint num \<noteq> 0"
    using that by (auto simp: updateFreeEntries_def)
  have frame: "updateFreeEntries num iq = iq\<lparr>freeEntries := freeEntries (updateFreeEntries num iq)\<rparr>"
    by (simp add: updateFreeEntries_def)
  show ?thesis
    using mod exact changed frame by (simp add: updateFreeEntries_def getCount_def)
qed

text \<open>
  The theorem at \<open>n = 1\<close> on the example queue: one entry is reported free while
  thread 0 still holds all four entries.
\<close>

theorem updateFreeEntries_frame_witness:
  "sint (1 :: 32 word) \<noteq> 0
   \<and> uint (freeEntries example_iq) + sint (1 :: 32 word) < 2 ^ 32
   \<and> uint (freeEntries (updateFreeEntries 1 example_iq)) = 1
   \<and> freeEntries (updateFreeEntries 1 example_iq) \<noteq> freeEntries example_iq
   \<and> getCount (updateFreeEntries 1 example_iq) 0 = 4
   \<and> numEntries (updateFreeEntries 1 example_iq) = 4"
  using updateFreeEntries_frame[of 1 example_iq]
  by (simp add: example_iq_def getCount_def)

subsection \<open>C5: \<open>commit\<close>\<close>

lemma commit_unfold:
  "instList iq tid = l \<Longrightarrow>
   commit sn tid iq =
     iq\<lparr>instList := (instList iq)(tid := dropWhile (\<lambda>p. seqNum (insts iq p) \<le> sn) l),
        freeEntries := freeEntries iq + of_nat (length (takeWhile (\<lambda>p. seqNum (insts iq p) \<le> sn) l)),
        count := (count iq)(tid := count iq tid
                   - of_nat (length (takeWhile (\<lambda>p. seqNum (insts iq p) \<le> sn) l)))\<rparr>"
proof (induction l arbitrary: iq)
  case Nil
  then have "(instList iq)(tid := []) = instList iq" by (metis fun_upd_triv)
  then show ?case using Nil by (subst commit.simps) simp
next
  case (Cons h rest)
  show ?case
  proof (cases "seqNum (insts iq h) \<le> sn")
    case False
    have "(instList iq)(tid := h # rest) = instList iq" using Cons.prems by (metis fun_upd_triv)
    then show ?thesis using False Cons.prems by (subst commit.simps) simp
  next
    case True
    define iq' where "iq' = iq\<lparr>instList := (instList iq)(tid := rest),
                     freeEntries := freeEntries iq + 1,
                     count := (count iq)(tid := count iq tid - 1)\<rparr>"
    have l': "instList iq' tid = rest" by (simp add: iq'_def)
    have "commit sn tid iq = commit sn tid iq'"
      using True Cons.prems by (subst commit.simps) (simp add: iq'_def)
    also note Cons.IH[OF l']
    finally show ?thesis using True by (simp add: iq'_def add.assoc diff_diff_eq cong: if_cong)
  qed
qed

lemma sorted_takeWhile_filter:
  "sorted (map f l) \<Longrightarrow> takeWhile (\<lambda>p. f p \<le> (k::nat)) l = filter (\<lambda>p. f p \<le> k) l"
proof (induction l)
  case Nil
  then show ?case by simp
next
  case (Cons a l)
  show ?case
  proof (cases "f a \<le> k")
    case True
    then show ?thesis using Cons by simp
  next
    case False
    then have "\<forall>p \<in> set l. \<not> f p \<le> k" using Cons.prems by auto
    then have "filter (\<lambda>p. f p \<le> k) l = []" by (simp add: filter_empty_conv)
    then show ?thesis using False by simp
  qed
qed

lemma sorted_dropWhile_filter:
  "sorted (map f l) \<Longrightarrow> dropWhile (\<lambda>p. f p \<le> (k::nat)) l = filter (\<lambda>p. \<not> f p \<le> k) l"
proof (induction l)
  case Nil
  then show ?case by simp
next
  case (Cons a l)
  show ?case
  proof (cases "f a \<le> k")
    case True
    then show ?thesis using Cons by simp
  next
    case False
    then have "\<forall>p \<in> set l. \<not> f p \<le> k" using Cons.prems by auto
    then have "filter (\<lambda>p. \<not> f p \<le> k) l = l" by (simp add: filter_id_conv)
    then show ?thesis using False by simp
  qed
qed

text \<open>
  Claim C5. The instruction window \<open>instList[tid]\<close> is kept in dispatch order and
  sequence numbers grow along it (spec, section 3). On such a window \<open>commit(sn, tid)\<close>
  removes from the head exactly the instructions with sequence number \<open>\<le> sn\<close>: the old
  list is the removed instructions followed by the new list, and the new list is the old
  one without them. \<open>freeEntries\<close> grows and \<open>count[tid]\<close> shrinks by one per removed
  instruction (both are \<open>unsigned\<close>), the lists and counts of the other threads, the
  dependency graph, the scoreboard and the instructions themselves are untouched, and
  afterwards no instruction with sequence number \<open>\<le> sn\<close> is left in \<open>instList[tid]\<close>.
\<close>

theorem commit_removes_committed:
  assumes ordered: "sorted (map (\<lambda>p. seqNum (insts iq p)) (instList iq tid))"
  shows "instList iq tid =
           filter (\<lambda>p. seqNum (insts iq p) \<le> sn) (instList iq tid) @ instList (commit sn tid iq) tid
       \<and> instList (commit sn tid iq) tid = filter (\<lambda>p. \<not> seqNum (insts iq p) \<le> sn) (instList iq tid)
       \<and> freeEntries (commit sn tid iq) =
           freeEntries iq + of_nat (length (filter (\<lambda>p. seqNum (insts iq p) \<le> sn) (instList iq tid)))
       \<and> count (commit sn tid iq) tid =
           count iq tid - of_nat (length (filter (\<lambda>p. seqNum (insts iq p) \<le> sn) (instList iq tid)))
       \<and> (\<forall>t. t \<noteq> tid \<longrightarrow> instList (commit sn tid iq) t = instList iq t
                          \<and> count (commit sn tid iq) t = count iq t)
       \<and> dependGraph (commit sn tid iq) = dependGraph iq
       \<and> regScoreboard (commit sn tid iq) = regScoreboard iq
       \<and> insts (commit sn tid iq) = insts iq
       \<and> (\<forall>p \<in> set (instList (commit sn tid iq) tid). \<not> seqNum (insts (commit sn tid iq) p) \<le> sn)"
proof -
  define l where "l = instList iq tid"
  have tw: "takeWhile (\<lambda>p. seqNum (insts iq p) \<le> sn) l = filter (\<lambda>p. seqNum (insts iq p) \<le> sn) l"
    using ordered unfolding l_def by (rule sorted_takeWhile_filter)
  have dw: "dropWhile (\<lambda>p. seqNum (insts iq p) \<le> sn) l
      = filter (\<lambda>p. \<not> seqNum (insts iq p) \<le> sn) l"
    using ordered unfolding l_def by (rule sorted_dropWhile_filter)
  have split: "l = filter (\<lambda>p. seqNum (insts iq p) \<le> sn) l
      @ filter (\<lambda>p. \<not> seqNum (insts iq p) \<le> sn) l"
    using takeWhile_dropWhile_id[of "\<lambda>p. seqNum (insts iq p) \<le> sn" l] tw dw by simp
  show ?thesis
    using split tw dw
    by (simp add: commit_unfold[OF refl] l_def[symmetric])
qed

text \<open>
  The theorem on the example queue: \<open>commit(3, 0)\<close> removes instructions 3 and 1
  (sequence numbers 1 and 3) and frees two entries.
\<close>

theorem commit_removes_committed_witness:
  "sorted (map (\<lambda>p. seqNum (insts example_iq p)) (instList example_iq 0))
   \<and> instList example_iq 0 = [3, 1] @ instList (commit 3 0 example_iq) 0
   \<and> instList (commit 3 0 example_iq) 0 = [0, 2]
   \<and> freeEntries (commit 3 0 example_iq) = 2
   \<and> count (commit 3 0 example_iq) 0 = 2
   \<and> list_all (\<lambda>p. \<not> seqNum (insts (commit 3 0 example_iq) p) \<le> 3)
        (instList (commit 3 0 example_iq) 0)"
proof -
  have s: "sorted (map (\<lambda>p. seqNum (insts example_iq p)) (instList example_iq 0))"
    by (simp add: example_iq_def example_mem_def example_inst_def)
  show ?thesis
    using commit_removes_committed[OF s, of 3] s
    by (simp add: example_iq_def example_mem_def example_inst_def list_all_iff)
qed

end
